theory Spec2Isabelle
  imports Complex_Main "HOL-Library.Word"
begin

unbundle bit_operations_syntax

section \<open>The JavaScript values the watermark codec works on\<close>

text \<open>
  A JavaScript string is a sequence of UTF-16 code units; \<open>charCodeAt\<close> reads one and
  \<open>String.fromCharCode\<close> builds one (taking its argument modulo \<open>2 ^ 16\<close>). The digit
  strings that the codec builds hold only the characters \<open>0\<close> and \<open>1\<close> and are kept as
  Isabelle strings. JavaScript numbers are modelled without rounding: the counter of the
  generator and the values it returns are reals, pixel and data indices are integers.
\<close>

type_synonym jsstring = "16 word list"

definition js :: "string \<Rightarrow> jsstring" where
  "js s = map (\<lambda>c. of_nat (of_char c)) s"

section \<open>utils: createSeededRandom, stringToBinary, binaryToString\<close>

subsection \<open>The seeded generator\<close>

text \<open>
  \<^verbatim>\<open>createSeededRandom(seed)\<close> returns a closure over the mutable variable \<open>seed\<close>.
  The state of the closure is the current value of that variable; a call of the closure
  is \<open>nextRandom\<close>, which returns the value and the state after \<^verbatim>\<open>seed++\<close>.
\<close>

type_synonym generator = real

definition createSeededRandom :: "real \<Rightarrow> generator" where
  "createSeededRandom seed = seed"

definition nextRandom :: "generator \<Rightarrow> real \<times> generator" where
  "nextRandom seed = (let x = sin seed * 10000 in (x - of_int \<lfloor>x\<rfloor>, seed + 1))"

subsection \<open>stringToBinary\<close>

text \<open>\<^verbatim>\<open>n.toString(2)\<close> for a non-negative integer: no leading zeros, \<open>0\<close> for zero.\<close>

fun toString2 :: "nat \<Rightarrow> string" where
  "toString2 n =
     (if n < 2 then [if n = 0 then CHR ''0'' else CHR ''1'']
      else toString2 (n div 2) @ [if n mod 2 = 0 then CHR ''0'' else CHR ''1''])"

declare toString2.simps [simp del]

definition padStart :: "nat \<Rightarrow> char \<Rightarrow> string \<Rightarrow> string" where
  "padStart n c s = replicate (n - length s) c @ s"

fun stringToBinaryLoop :: "string \<Rightarrow> jsstring \<Rightarrow> string" where
  "stringToBinaryLoop result [] = result"
| "stringToBinaryLoop result (c # str) =
     (let binary = padStart 8 CHR ''0'' (toString2 (unat c))
      in stringToBinaryLoop (result @ binary) str)"

definition stringToBinary :: "jsstring \<Rightarrow> string" where
  "stringToBinary str = stringToBinaryLoop [] str"

subsection \<open>binaryToString\<close>

text \<open>
  \<^verbatim>\<open>parseInt(byte, 2)\<close> reads the longest prefix of binary digits and is \<open>NaN\<close>
  (here \<open>None\<close>) when that prefix is empty. Leading blanks and a sign, which \<open>parseInt\<close>
  also accepts, do not occur in the digit strings of this program and are not modelled.
  \<^verbatim>\<open>String.fromCharCode\<close> maps \<open>NaN\<close> to the code unit 0.
\<close>

definition parseInt2 :: "string \<Rightarrow> nat option" where
  "parseInt2 s =
     (let ds = takeWhile (\<lambda>c. c = CHR ''0'' \<or> c = CHR ''1'') s
      in if ds = [] then None
         else Some (foldl (\<lambda>acc c. 2 * acc + (if c = CHR ''1'' then 1 else 0)) 0 ds))"

definition fromCharCode :: "nat option \<Rightarrow> 16 word" where
  "fromCharCode n = (case n of None \<Rightarrow> 0 | Some v \<Rightarrow> of_nat v)"

function binaryToStringLoop :: "jsstring \<Rightarrow> string \<Rightarrow> jsstring" where
  "binaryToStringLoop result binary =
     (if binary = [] then result
      else (let byte = take 8 binary
            in binaryToStringLoop (result @ [fromCharCode (parseInt2 byte)]) (drop 8 binary)))"
  by pat_completeness auto

termination
  by (relation "measure (\<lambda>(result, binary). length binary)") auto

declare binaryToStringLoop.simps [simp del]

definition binaryToString :: "string \<Rightarrow> jsstring" where
  "binaryToString binary = binaryToStringLoop [] binary"

text \<open>
  The specification's description of the codec: a character is the eight bits of its code,
  most significant bit first.
\<close>

definition byteBits :: "16 word \<Rightarrow> string" where
  "byteBits c = map (\<lambda>i. if bit c i then CHR ''1'' else CHR ''0'') [7, 6, 5, 4, 3, 2, 1, 0]"

definition textToBits :: "jsstring \<Rightarrow> string" where
  "textToBits text = concat (map byteBits text)"

section \<open>watermark: pixel buffers, options, embedding and extraction\<close>

subsection \<open>Typed arrays in a store\<close>

text \<open>
  An \<open>ImageData\<close> holds a reference to a \<open>Uint8ClampedArray\<close>. The store is the list of
  all such arrays, a reference is a position in it, and allocating appends. Reading a
  typed array outside its bounds gives \<open>undefined\<close>; writing there is ignored.
\<close>

type_synonym heap = "8 word list list"

record ImageData =
  data :: nat
  width :: nat
  height :: nat

definition wf_ImageData :: "heap \<Rightarrow> ImageData \<Rightarrow> bool" where
  "wf_ImageData h imageData \<longleftrightarrow>
     data imageData < length h \<and>
     length (h ! data imageData) = 4 * (width imageData * height imageData)"

definition readByte :: "heap \<Rightarrow> nat \<Rightarrow> int \<Rightarrow> 8 word option" where
  "readByte h a i =
     (if 0 \<le> i \<and> i < int (length (h ! a)) then Some (h ! a ! nat i) else None)"

definition writeByte :: "heap \<Rightarrow> nat \<Rightarrow> int \<Rightarrow> 8 word \<Rightarrow> heap" where
  "writeByte h a i v =
     (if 0 \<le> i \<and> i < int (length (h ! a)) then h[a := (h ! a)[nat i := v]] else h)"

text \<open>The bitwise operators turn \<open>undefined\<close> into 0.\<close>

definition toInt32 :: "8 word option \<Rightarrow> 8 word" where
  "toInt32 v = (case v of None \<Rightarrow> 0 | Some b \<Rightarrow> b)"

text \<open>\<^verbatim>\<open>arr[i] |= m\<close> and \<^verbatim>\<open>arr[i] &= m\<close>.\<close>

definition orAssign :: "heap \<Rightarrow> nat \<Rightarrow> int \<Rightarrow> 8 word \<Rightarrow> heap" where
  "orAssign h a i m = writeByte h a i (toInt32 (readByte h a i) OR m)"

definition andAssign :: "heap \<Rightarrow> nat \<Rightarrow> int \<Rightarrow> 8 word \<Rightarrow> heap" where
  "andAssign h a i m = writeByte h a i (toInt32 (readByte h a i) AND m)"


text \<open>\<^verbatim>\<open>new Uint8ClampedArray(arr)\<close>: a fresh array with the same contents.\<close>

definition newUint8ClampedArray :: "heap \<Rightarrow> nat \<Rightarrow> heap \<times> nat" where
  "newUint8ClampedArray h a = (h @ [h ! a], length h)"

subsection \<open>Options\<close>

text \<open>
  An absent key of \<open>WatermarkOptions\<close> is \<open>None\<close>. The defaults are built on every call,
  so \<^verbatim>\<open>Math.random()\<close> is called once per call; the value it returns is the first
  argument of \<open>applyInvisibleWatermark\<close> and of \<open>extractWatermark\<close>.
\<close>

record WatermarkOptions =
  strength :: "real option"
  message :: "jsstring option"
  randomSeed :: "real option"

record WatermarkConfig =
  cfg_strength :: real
  cfg_message :: jsstring
  cfg_randomSeed :: real

definition defaultMessage :: jsstring where
  \<open>defaultMessage = js ''{"address":"Token address","nft_id":"Test nft_id"}''\<close>

definition mathRound :: "real \<Rightarrow> real" where
  "mathRound x = of_int \<lfloor>x + 1 / 2\<rfloor>"

text \<open>\<^verbatim>\<open>{ ...defaults, ...options }\<close>\<close>

definition spread :: "WatermarkConfig \<Rightarrow> WatermarkOptions \<Rightarrow> WatermarkConfig" where
  "spread defaults options =
     \<lparr> cfg_strength = (case strength options of None \<Rightarrow> cfg_strength defaults | Some s \<Rightarrow> s),
       cfg_message = (case message options of None \<Rightarrow> cfg_message defaults | Some m \<Rightarrow> m),
       cfg_randomSeed =
         (case randomSeed options of None \<Rightarrow> cfg_randomSeed defaults | Some r \<Rightarrow> r) \<rparr>"

subsection \<open>Slot selection\<close>

text \<open>
  The \<^verbatim>\<open>do ... while (modifiedPixels.has(pixelIndex))\<close> loop. It has no bound on the
  number of draws; \<open>None\<close> is the run that never leaves the loop.
\<close>

partial_function (option) drawPixel ::
  "generator \<Rightarrow> nat \<Rightarrow> int set \<Rightarrow> (int \<times> generator) option" where
  "drawPixel random totalPixels modifiedPixels =
     (let pixelIndex = \<lfloor>fst (nextRandom random) * real totalPixels\<rfloor>
      in if pixelIndex \<in> modifiedPixels
         then drawPixel (snd (nextRandom random)) totalPixels modifiedPixels
         else Some (pixelIndex, snd (nextRandom random)))"

subsection \<open>applyInvisibleWatermark\<close>

text \<open>
  The loop over the bits of the message. Its state is the store (the array \<open>a\<close> of
  \<open>watermarkedData\<close> is updated in place), the generator and \<open>modifiedPixels\<close>.
\<close>

fun embedLoop ::
  "string \<Rightarrow> nat \<Rightarrow> nat \<Rightarrow> heap \<times> generator \<times> int set \<Rightarrow> (heap \<times> generator \<times> int set) option"
  where
  "embedLoop [] totalPixels a st = Some st"
| "embedLoop (b # binaryMessage) totalPixels a (h, random, modifiedPixels) =
     (case drawPixel random totalPixels modifiedPixels of
        None \<Rightarrow> None
      | Some (pixelIndex, random') \<Rightarrow>
          (let dataIndex = pixelIndex * 4;
               h' = (if b = CHR ''1'' then orAssign h a (dataIndex + 2) 1
                     else andAssign h a (dataIndex + 2) (NOT 1))
           in embedLoop binaryMessage totalPixels a
                (h', random', insert pixelIndex modifiedPixels)))"

definition signature :: string where
  "signature = stringToBinary (js ''WATERMARK'')"

definition signatureDataIndex :: "nat \<Rightarrow> nat \<Rightarrow> int" where
  "signatureDataIndex totalPixels i =
     (let byteIndex = int i + int totalPixels - 64; dataIndex = byteIndex * 4
      in dataIndex + 3)"

definition writeSignature :: "nat \<Rightarrow> nat \<Rightarrow> heap \<Rightarrow> heap" where
  "writeSignature totalPixels a h =
     fold (\<lambda>i h. if signature ! i = CHR ''1''
                  then orAssign h a (signatureDataIndex totalPixels i) 1
                  else andAssign h a (signatureDataIndex totalPixels i) (NOT 1))
          [0 ..< min (length signature) 64] h"

definition applyInvisibleWatermark ::
  "real \<Rightarrow> heap \<Rightarrow> ImageData \<Rightarrow> WatermarkOptions \<Rightarrow> (heap \<times> ImageData) option" where
  "applyInvisibleWatermark mathRandom h imageData options =
     (let defaults = \<lparr> cfg_strength = 3 / 10, cfg_message = defaultMessage,
                       cfg_randomSeed = mathRound (mathRandom * 1000 + 1) \<rparr>;
          config = spread defaults options;
          (h1, a) = newUint8ClampedArray h (data imageData);
          watermarkedData = \<lparr> data = a, width = width imageData, height = height imageData \<rparr>;
          binaryMessage = stringToBinary (cfg_message config);
          random = createSeededRandom (cfg_randomSeed config);
          totalPixels = width imageData * height imageData
      in case embedLoop binaryMessage totalPixels a (h1, random, {}) of
           None \<Rightarrow> None
         | Some (h2, random', modifiedPixels) \<Rightarrow>
             Some (writeSignature totalPixels a h2, watermarkedData))"

subsection \<open>extractWatermark\<close>




section \<open>Auxiliary notions for the proofs\<close>

text \<open>The \<open>k\<close> low bits of a number as digits, most significant first.\<close>

definition digitChar :: "bool \<Rightarrow> char" where
  "digitChar b = (if b then CHR ''1'' else CHR ''0'')"

definition bitsMSB :: "nat \<Rightarrow> nat \<Rightarrow> string" where
  "bitsMSB k n = map (\<lambda>i. digitChar (bit n i)) (rev [0 ..< k])"

text \<open>
  The pixel index computed from one call of the generator at counter \<open>c\<close>, and the
  selection of \<open>k\<close> pixels on its own, as both loops perform it.
\<close>

definition pixelAt :: "nat \<Rightarrow> real \<Rightarrow> int" where
  "pixelAt N c = \<lfloor>fst (nextRandom c) * real N\<rfloor>"

fun selectPixels ::
  "nat \<Rightarrow> nat \<Rightarrow> generator \<Rightarrow> int set \<Rightarrow> (int list \<times> generator \<times> int set) option" where
  "selectPixels 0 N g M = Some ([], g, M)"
| "selectPixels (Suc k) N g M =
     (case drawPixel g N M of
        None \<Rightarrow> None
      | Some (p, g') \<Rightarrow>
          (case selectPixels k N g' (insert p M) of
             None \<Rightarrow> None
           | Some (ps, g'', M') \<Rightarrow> Some (p # ps, g'', M')))"

definition setBlue :: "nat \<Rightarrow> int \<times> char \<Rightarrow> heap \<Rightarrow> heap" where
  "setBlue a pb h =
     (if snd pb = CHR ''1'' then orAssign h a (fst pb * 4 + 2) 1
      else andAssign h a (fst pb * 4 + 2) (NOT 1))"

text \<open>Two bytes that agree in all bits but the lowest; writes of single bits to one array.\<close>

definition sameUpToLSB :: "8 word \<Rightarrow> 8 word \<Rightarrow> bool" where
  "sameUpToLSB x y \<longleftrightarrow> x AND NOT 1 = y AND NOT 1"

definition setLSB :: "8 word list \<Rightarrow> int \<times> bool \<Rightarrow> 8 word list" where
  "setLSB d ib =
     (if 0 \<le> fst ib \<and> fst ib < int (length d)
      then d[nat (fst ib) := (if snd ib then d ! nat (fst ib) OR 1 else d ! nat (fst ib) AND NOT 1)]
      else d)"

definition writeBits :: "(int \<times> bool) list \<Rightarrow> 8 word list \<Rightarrow> 8 word list" where
  "writeBits W d = fold (\<lambda>ib d. setLSB d ib) W d"

definition messageWrites :: "int list \<Rightarrow> string \<Rightarrow> (int \<times> bool) list" where
  "messageWrites ps bits = map (\<lambda>(p, c). (p * 4 + 2, c = CHR ''1'')) (zip ps bits)"

definition signatureWrites :: "nat \<Rightarrow> (int \<times> bool) list" where
  "signatureWrites N =
     map (\<lambda>i. (signatureDataIndex N i, signature ! i = CHR ''1'')) [0 ..< min (length signature) 64]"

text \<open>The merged configuration of each entry point, and the pixel count of an image.\<close>

definition applyConfig :: "real \<Rightarrow> WatermarkOptions \<Rightarrow> WatermarkConfig" where
  "applyConfig mathRandom options =
     spread \<lparr> cfg_strength = 3 / 10, cfg_message = defaultMessage,
              cfg_randomSeed = mathRound (mathRandom * 1000 + 1) \<rparr> options"

definition extractConfig :: "real \<Rightarrow> WatermarkOptions \<Rightarrow> WatermarkConfig" where
  "extractConfig mathRandom options =
     spread \<lparr> cfg_strength = 3 / 10, cfg_message = defaultMessage,
              cfg_randomSeed = mathRound (mathRandom * 10000 + 1) \<rparr> options"

definition pixelCount :: "ImageData \<Rightarrow> nat" where
  "pixelCount imageData = width imageData * height imageData"


text \<open>
  Approximations of \<open>sin k\<close> for \<open>k = 0, ..., 61\<close>, scaled by \<open>10 ^ 40\<close>. The table is
  checked, not trusted: \<open>sinSteps\<close> tests the recurrence
  \<open>sin (k + 2) = 2 cos 1 * sin (k + 1) - sin k\<close> on consecutive entries, \<open>taylorOne\<close>
  computes the Taylor sums that bound \<open>sin 1\<close> and \<open>cos 1\<close>, and \<open>sinErr\<close> bounds the
  error of entry \<open>k\<close>.
\<close>

definition sinScale :: int where
  "sinScale = 10000000000000000000000000000000000000000"

definition sinOne :: int where
  "sinOne = 8414709848078965066525023216302989996225"

definition twoCosOne :: int where
  "twoCosOne = 10806046117362794348018732148859532074646"

definition sinTable :: "int list" where
  "sinTable =
    [0, 8414709848078965066525023216302989996225,
     9092974268256816953960198659117448427021, 1411200080598672221007448028081102798468,
     -7568024953079282513726390945118290941360, -9589242746631384688931544061559939733525,
     -2794154981989258728115554466118947596280, 6569865987187890903969990915936351779369,
     9893582466233817778081235982452886721164, 4121184852417565697562725663524351793438,
     -5440211108893698134047476618513772816838, -9999902065507034570515648990255221068431,
     -5365729180004349716653742282424017923157, 4201670368266409218689550354768827883151,
     9906073556948703078753548040145856037583, 6502878401571168658297402709888703252144,
     -2879033166650652947844562482186175296210, -9613974918795568572616369448691560984923,
     -7509872467716761037501560844471145313776, 1498772096629523297542393212382539494486,
     9129452507276276543760999838456823012981, 8366556385360560318664807702450237759400,
     -88513092904038759216902568157723324636, -8462204041751706352413262719055959277376,
     -9055783620066238451357933585277933222209, -1323517500977730289020050938836063014855,
     7625584504796027375158232932045629730964, 9563759284045030134323405583291929504746,
     2709057883078690199863430927787925334425, -6636338842129675021511733400611051511238,
     -9880316240928617899877489072944581504870, -4040376453230650060487708996642371978727,
     5514266812416905506615581668457128157259, 9999118601072671457280843767078283143511,
     5290826861200238208324871340321047538904, -4281826694961510044067528917459406656552,
     -9917788534431157368352889688408157785963, -6435381333569994606856700190807955412757,
     2963685787093853173922966498490173212762, 9637953862840877532606649717658821150976,
     7451131604793487869877094026363443422392, -1586226688047089871033170119296870318610,
     -9165215479156337858989891580696715017487, -8317747426285982882095782562917522404918,
     177019251054135778079540531666166986811, 8509035245341184248623796776180411190812,
     9017883476488091850332930392227385691203, 1235731227452240040615293480864105483618,
     -7682546613236667990449656648458934947988, -9537526527594718183604235585877105952831,
     -2623748537039287859143936469126225458862, 6702291758433747344943450749506668081085,
     9866275920404852965875689344367401112684, 3959251501818341815033861392635392730556,
     -5587890488516162458178713189653937966679, -9997551733586198365986316832438921992332,
     -5215510020869118801874100215106005378177, 4361647552478249590805347931292434882686,
     9928726480845371181650881644253998184271, 6367380071391378807712334923768293831252,
     -3048106211022167056256494654784258408300, -9661177700083929470182879894805181517719]"

fun sinSteps :: "int list \<Rightarrow> bool" where
  "sinSteps (a # b # c # xs) =
     (\<bar>twoCosOne * b - (c + a) * sinScale\<bar> \<le> sinScale \<and> sinSteps (b # c # xs))"
| "sinSteps xs = True"

definition sinErr :: "nat \<Rightarrow> int" where
  "sinErr k = 2 * 3 ^ k - 1"

fun taylorOne :: "nat \<Rightarrow> int \<times> int \<times> int" where
  "taylorOne 0 = (1, 0, 0)"
| "taylorOne (Suc n) =
     (case taylorOne n of (f, s, c) \<Rightarrow>
        (int (Suc n) * f,
         int (Suc n) * (s + (if even n then 0 else (- 1) ^ ((n - 1) div 2))),
         int (Suc n) * (c + (if even n then (- 1) ^ (n div 2) else 0))))"

definition pixelCheck :: "nat \<Rightarrow> nat \<Rightarrow> int \<Rightarrow> bool" where
  "pixelCheck N k q \<longleftrightarrow>
     k < length sinTable \<and>
     q * sinScale \<le> (sinTable ! k - sinErr k) * (10000 * int N) \<and>
     (sinTable ! k + sinErr k) * (10000 * int N) < (q + 1) * sinScale"

text \<open>
  The scenarios that the instances below evaluate: blank images (all bytes 0), the options
  used, the pixels selected from seeds 42 and 43 in a 10 by 10 image and the buffers that
  embedding returns.
\<close>

definition blankStore :: "nat \<Rightarrow> heap" where
  "blankStore n = [replicate (4 * n) 0]"

definition imageAt :: "nat \<Rightarrow> nat \<Rightarrow> nat \<Rightarrow> ImageData" where
  "imageAt a w h = \<lparr> data = a, width = w, height = h \<rparr>"

definition optionsOf :: "jsstring \<Rightarrow> real option \<Rightarrow> WatermarkOptions" where
  "optionsOf text seed = \<lparr> strength = None, message = Some text, randomSeed = seed \<rparr>"

definition pixels42 :: "int list" where
  "pixels42 = [78, 25, 1, 3, 88, 73, 45, 47, 29, 27, 10, 44, 48, 64, 72, 38]"


definition watermarked42 :: "8 word list" where
  "watermarked42 =
    [0, 0, 0, 0,  0, 0, 1, 0,  0, 0, 0, 0,  0, 0, 1, 0,  0, 0, 0, 0,
     0, 0, 0, 0,  0, 0, 0, 0,  0, 0, 0, 0,  0, 0, 0, 0,  0, 0, 0, 0,
     0, 0, 1, 0,  0, 0, 0, 0,  0, 0, 0, 0,  0, 0, 0, 0,  0, 0, 0, 0,
     0, 0, 0, 0,  0, 0, 0, 0,  0, 0, 0, 0,  0, 0, 0, 0,  0, 0, 0, 0,
     0, 0, 0, 0,  0, 0, 0, 0,  0, 0, 0, 0,  0, 0, 0, 0,  0, 0, 0, 0,
     0, 0, 1, 0,  0, 0, 0, 0,  0, 0, 1, 0,  0, 0, 0, 0,  0, 0, 0, 0,
     0, 0, 0, 0,  0, 0, 0, 0,  0, 0, 0, 0,  0, 0, 0, 0,  0, 0, 0, 0,
     0, 0, 0, 0,  0, 0, 0, 0,  0, 0, 0, 1,  0, 0, 1, 0,  0, 0, 0, 1,
     0, 0, 0, 0,  0, 0, 0, 1,  0, 0, 0, 1,  0, 0, 0, 1,  0, 0, 1, 0,
     0, 0, 1, 1,  0, 0, 0, 0,  0, 0, 1, 0,  0, 0, 1, 0,  0, 0, 0, 0,
     0, 0, 0, 0,  0, 0, 0, 1,  0, 0, 0, 0,  0, 0, 0, 1,  0, 0, 0, 0,
     0, 0, 0, 1,  0, 0, 0, 0,  0, 0, 0, 1,  0, 0, 0, 0,  0, 0, 0, 0,
     0, 0, 0, 0,  0, 0, 0, 1,  0, 0, 0, 0,  0, 0, 0, 0,  0, 0, 1, 0,
     0, 0, 0, 1,  0, 0, 0, 0,  0, 0, 0, 1,  0, 0, 0, 0,  0, 0, 0, 1,
     0, 0, 0, 0,  0, 0, 0, 1,  0, 0, 0, 0,  0, 0, 0, 0,  0, 0, 0, 1,
     0, 0, 0, 0,  0, 0, 0, 0,  0, 0, 0, 1,  0, 0, 0, 0,  0, 0, 0, 0,
     0, 0, 0, 1,  0, 0, 0, 1,  0, 0, 0, 0,  0, 0, 0, 1,  0, 0, 0, 0,
     0, 0, 0, 1,  0, 0, 0, 0,  0, 0, 0, 0,  0, 0, 1, 0,  0, 0, 0, 0,
     0, 0, 0, 0,  0, 0, 0, 1,  0, 0, 0, 0,  0, 0, 0, 1,  0, 0, 0, 0,
     0, 0, 0, 1,  0, 0, 0, 0,  0, 0, 0, 0,  0, 0, 0, 1,  0, 0, 0, 0]"




section \<open>The bit codec\<close>

lemma bitsMSB_Suc: "bitsMSB (Suc k) n = bitsMSB k (n div 2) @ [digitChar (odd n)]"
proof -
  have "[0 ..< Suc k] = 0 # [Suc 0 ..< Suc k]"
    by (rule upt_conv_Cons) simp
  also have "[Suc 0 ..< Suc k] = map Suc [0 ..< k]"
    by (simp only: map_Suc_upt)
  finally show ?thesis
    by (simp add: bitsMSB_def rev_map bit_Suc bit_0 del: upt_Suc)
qed

lemma padStart_zero: "0 < k \<Longrightarrow> padStart k CHR ''0'' (toString2 0) = replicate k CHR ''0''"
  by (cases k) (simp_all add: toString2.simps [of 0] padStart_def replicate_append_same)

lemma bitsMSB_zero: "bitsMSB k 0 = replicate k CHR ''0''"
  by (simp add: bitsMSB_def digitChar_def map_replicate_const)

lemma toString2_small: "n < 2 \<Longrightarrow> toString2 n = [digitChar (odd n)]"
  by (subst toString2.simps) (auto simp: digitChar_def)

lemma length_bitsMSB [simp]: "length (bitsMSB k n) = k"
  by (simp add: bitsMSB_def)

lemma padStart_snoc: "padStart (Suc k) c (s @ [x]) = padStart k c s @ [x]"
  by (simp add: padStart_def)

lemma toString2_step:
  "0 < k \<Longrightarrow> padStart (Suc k) CHR ''0'' (toString2 n) =
     padStart k CHR ''0'' (toString2 (n div 2)) @ [digitChar (odd n)]"
proof (cases "n < 2")
  case True
  assume k: "0 < k"
  from True have "n div 2 = 0" by simp
  then show ?thesis
    by (simp add: padStart_zero [OF k] toString2_small [OF True]) (simp add: padStart_def)
next
  case False
  then have "toString2 n = toString2 (n div 2) @ [digitChar (odd n)]"
    by (subst toString2.simps) (auto simp: digitChar_def odd_iff_mod_2_eq_one)
  then show ?thesis by (simp add: padStart_snoc)
qed

lemma padStart_toString2:
  "0 < k \<Longrightarrow> n < 2 ^ k \<Longrightarrow> padStart k CHR ''0'' (toString2 n) = bitsMSB k n"
proof (induction k arbitrary: n)
  case 0
  then show ?case by simp
next
  case (Suc k)
  show ?case
  proof (cases "k = 0")
    case True
    with Suc.prems have "n < 2" by simp
    then show ?thesis using True
      by (simp add: toString2_small padStart_def bitsMSB_def bit_0)
  next
    case False
    then have k: "0 < k" by simp
    from Suc.prems have "n div 2 < 2 ^ k" by auto
    with Suc.IH k have "padStart k CHR ''0'' (toString2 (n div 2)) = bitsMSB k (n div 2)" by simp
    then show ?thesis by (simp add: toString2_step [OF k] bitsMSB_Suc)
  qed
qed

lemma rev_upt_8: "rev [0 ..< 8] = [7, 6, 5, 4, 3, 2, 1, 0 :: nat]"
  by code_simp

lemma byteBits_bitsMSB: "byteBits c = bitsMSB 8 (unat c)"
  unfolding byteBits_def bitsMSB_def rev_upt_8
  by (simp add: digitChar_def bit_unsigned_iff)

lemma stringToBinaryLoop_append:
  "stringToBinaryLoop result str =
     result @ concat (map (\<lambda>c. padStart 8 CHR ''0'' (toString2 (unat c))) str)"
  by (induction str arbitrary: result) simp_all

lemma stringToBinary_concat:
  "stringToBinary str = concat (map (\<lambda>c. padStart 8 CHR ''0'' (toString2 (unat c))) str)"
  by (simp add: stringToBinary_def stringToBinaryLoop_append)

lemma stringToBinary_textToBits:
  assumes "\<forall>c \<in> set str. unat c \<le> 255"
  shows "stringToBinary str = textToBits str"
proof -
  have "padStart 8 CHR ''0'' (toString2 (unat c)) = byteBits c" if "c \<in> set str" for c
  proof -
    from that assms have "unat c < 2 ^ 8" by fastforce
    then show ?thesis by (simp add: padStart_toString2 byteBits_bitsMSB)
  qed
  then show ?thesis
    by (simp add: stringToBinary_concat textToBits_def cong: map_cong)
qed

lemma length_byteBits [simp]: "length (byteBits c) = 8"
  by (simp add: byteBits_def)

lemma foldl_bitsMSB:
  "foldl (\<lambda>acc c. 2 * acc + (if c = CHR ''1'' then 1 else 0)) a (bitsMSB k n) =
     a * 2 ^ k + n mod 2 ^ k"
proof (induction k arbitrary: n)
  case 0
  then show ?case by (simp add: bitsMSB_def)
next
  case (Suc k)
  have m: "n mod (2 * 2 ^ k) = 2 * (n div 2 mod 2 ^ k) + n mod 2"
    by (simp add: mod_mult2_eq)
  have "foldl (\<lambda>acc c. 2 * acc + (if c = CHR ''1'' then 1 else 0)) a (bitsMSB (Suc k) n) =
        2 * (a * 2 ^ k + n div 2 mod 2 ^ k) + (if odd n then 1 else 0)"
    by (simp add: bitsMSB_Suc Suc.IH digitChar_def)
  also have "\<dots> = a * 2 ^ Suc k + n mod 2 ^ Suc k"
    using m by (simp add: algebra_simps odd_iff_mod_2_eq_one)
  finally show ?case .
qed

lemma bitsMSB_digits: "set (bitsMSB k n) \<subseteq> {CHR ''0'', CHR ''1''}"
  by (auto simp: bitsMSB_def digitChar_def)

lemma parseInt2_bitsMSB: "0 < k \<Longrightarrow> parseInt2 (bitsMSB k n) = Some (n mod 2 ^ k)"
proof -
  assume k: "0 < k"
  have tw: "takeWhile (\<lambda>c. c = CHR ''0'' \<or> c = CHR ''1'') (bitsMSB k n) = bitsMSB k n"
    using bitsMSB_digits [of k n] by (intro takeWhile_eq_all_conv [THEN iffD2]) auto
  from k have ne: "bitsMSB k n \<noteq> []"
    by (metis length_bitsMSB length_0_conv less_numeral_extra(3))
  show ?thesis
    unfolding parseInt2_def tw Let_def using ne by (simp add: foldl_bitsMSB)
qed

lemma fromCharCode_byteBits:
  "unat c \<le> 255 \<Longrightarrow> fromCharCode (parseInt2 (byteBits c)) = c"
  by (simp add: byteBits_bitsMSB parseInt2_bitsMSB fromCharCode_def)

lemma binaryToStringLoop_textToBits:
  "\<forall>c \<in> set str. unat c \<le> 255 \<Longrightarrow>
     binaryToStringLoop result (textToBits str) = result @ str"
proof (induction str arbitrary: result)
  case Nil
  then show ?case by (simp add: textToBits_def binaryToStringLoop.simps)
next
  case (Cons c str)
  have split: "textToBits (c # str) = byteBits c @ textToBits str"
    by (simp add: textToBits_def)
  have ne: "byteBits c @ textToBits str \<noteq> []"
    by (simp add: byteBits_def)
  from Cons.prems have c: "unat c \<le> 255" by simp
  have "binaryToStringLoop result (byteBits c @ textToBits str) =
        binaryToStringLoop (result @ [c]) (textToBits str)"
    by (subst binaryToStringLoop.simps) (simp only: ne if_False Let_def, simp add: fromCharCode_byteBits [OF c])
  with Cons show ?case by (simp add: split)
qed

lemma binaryToString_textToBits:
  "\<forall>c \<in> set str. unat c \<le> 255 \<Longrightarrow> binaryToString (textToBits str) = str"
  by (simp add: binaryToString_def binaryToStringLoop_textToBits)

text \<open>
  Claim C4. \<open>stringToBinary\<close> writes each character as the eight bits of its code, most
  significant bit first, in the order of the characters; \<open>"AB"\<close> becomes
  \<open>0100000101000010\<close>; and \<open>binaryToString\<close> undoes it. Both hold for texts whose
  character codes are at most 255.
\<close>

theorem codec_roundtrip:
  "stringToBinary (js ''AB'') = ''0100000101000010'' \<and>
   ((\<forall>c \<in> set text. unat c \<le> 255) \<longrightarrow>
      stringToBinary text = textToBits text \<and> binaryToString (stringToBinary text) = text)"
proof
  have "\<forall>c \<in> set (js ''AB''). unat c \<le> 255" by (simp add: js_def)
  then have "stringToBinary (js ''AB'') = textToBits (js ''AB'')"
    by (rule stringToBinary_textToBits)
  also have "\<dots> = ''0100000101000010''"
    by (simp add: textToBits_def js_def byteBits_def)
  finally show "stringToBinary (js ''AB'') = ''0100000101000010''" .
next
  show "(\<forall>c \<in> set text. unat c \<le> 255) \<longrightarrow>
      stringToBinary text = textToBits text \<and> binaryToString (stringToBinary text) = text"
    by (simp add: stringToBinary_textToBits binaryToString_textToBits)
qed

theorem codec_roundtrip_witness:
  "stringToBinary (js ''{}'') = ''0111101101111101'' \<and>
   binaryToString (stringToBinary (js ''{}'')) = js ''{}''"
proof -
  have h: "\<forall>c \<in> set (js ''{}''). unat c \<le> 255" by (simp add: js_def)
  have t: "textToBits (js ''{}'') = ''0111101101111101''"
    by (simp add: textToBits_def js_def byteBits_def)
  from h codec_roundtrip [of "js ''{}''"]
  have a: "stringToBinary (js ''{}'') = textToBits (js ''{}'')"
    and b: "binaryToString (stringToBinary (js ''{}'')) = js ''{}''"
    by blast+
  from a t have "stringToBinary (js ''{}'') = ''0111101101111101''" by (rule trans)
  with b show ?thesis by (rule conjI [rotated])
qed

section \<open>Slot selection: what a draw returns\<close>

lemma snd_nextRandom [simp]: "snd (nextRandom c) = c + 1"
  by (simp add: nextRandom_def Let_def)

lemma fst_nextRandom_range: "0 \<le> fst (nextRandom c) \<and> fst (nextRandom c) < 1"
  by (simp add: nextRandom_def Let_def) linarith

lemma pixelAt_range:
  assumes "0 < N"
  shows "0 \<le> pixelAt N c \<and> pixelAt N c < int N"
proof -
  let ?r = "fst (nextRandom c)"
  from fst_nextRandom_range [of c] have r: "0 \<le> ?r" "?r < 1" by simp_all
  from r(1) have "0 \<le> ?r * real N" by simp
  then have lo: "0 \<le> \<lfloor>?r * real N\<rfloor>" by simp
  from r(2) assms have "?r * real N < real N" by simp
  then have "\<lfloor>?r * real N\<rfloor> < int N" by (simp add: floor_less_iff)
  with lo show ?thesis by (simp add: pixelAt_def)
qed

lemma drawPixel_unfold:
  "drawPixel c N M =
     (if pixelAt N c \<in> M then drawPixel (c + 1) N M else Some (pixelAt N c, c + 1))"
  by (subst drawPixel.simps) (simp add: pixelAt_def Let_def)

lemma drawPixel_Some:
  assumes "drawPixel c N M = Some y"
  shows "fst y \<notin> M \<and> (0 < N \<longrightarrow> 0 \<le> fst y \<and> fst y < int N)"
proof (rule drawPixel.raw_induct
    [where P = "\<lambda>c N M y. fst y \<notin> M \<and> (0 < N \<longrightarrow> 0 \<le> fst y \<and> fst y < int N)", OF _ assms])
  fix f :: "generator \<Rightarrow> nat \<Rightarrow> int set \<Rightarrow> (int \<times> generator) option"
    and c N M y
  assume IH: "\<And>c N M y. f c N M = Some y \<Longrightarrow>
      fst y \<notin> M \<and> (0 < N \<longrightarrow> 0 \<le> fst y \<and> fst y < int N)"
    and body: "(let pixelIndex = \<lfloor>fst (nextRandom c) * real N\<rfloor>
      in if pixelIndex \<in> M then f (snd (nextRandom c)) N M
         else Some (pixelIndex, snd (nextRandom c))) = Some y"
  show "fst y \<notin> M \<and> (0 < N \<longrightarrow> 0 \<le> fst y \<and> fst y < int N)"
  proof (cases "pixelAt N c \<in> M")
    case True
    with body have "f (c + 1) N M = Some y"
      by (simp add: pixelAt_def Let_def)
    then show ?thesis by (rule IH)
  next
    case False
    with body have "y = (pixelAt N c, c + 1)"
      by (auto simp: pixelAt_def Let_def)
    with False pixelAt_range [of N c] show ?thesis by simp
  qed
qed

lemma selectPixels_props:
  "selectPixels k N g M = Some (ps, g', M') \<Longrightarrow>
     length ps = k \<and> distinct ps \<and> set ps \<inter> M = {} \<and> M' = M \<union> set ps \<and>
     (0 < N \<longrightarrow> (\<forall>p \<in> set ps. 0 \<le> p \<and> p < int N))"
proof (induction k arbitrary: g M ps g' M')
  case 0
  then show ?case by simp
next
  case (Suc k)
  from Suc.prems obtain p g1 where d: "drawPixel g N M = Some (p, g1)"
    by (auto split: option.splits)
  with Suc.prems obtain qs where
    s: "selectPixels k N g1 (insert p M) = Some (qs, g', M')" and ps: "ps = p # qs"
    by (auto split: option.splits)
  from drawPixel_Some [OF d] have p: "p \<notin> M" "0 < N \<longrightarrow> 0 \<le> p \<and> p < int N" by simp_all
  from Suc.IH [OF s] p ps show ?case by auto
qed

lemma embedLoop_Cons:
  "embedLoop (b # bits) N a (h, g, M) =
     (case drawPixel g N M of
        None \<Rightarrow> None
      | Some (p, g') \<Rightarrow> embedLoop bits N a (setBlue a (p, b) h, g', insert p M))"
  by (simp add: setBlue_def Let_def split: option.splits)

lemma embedLoop_select:
  "embedLoop bits N a (h, g, M) =
     (case selectPixels (length bits) N g M of
        None \<Rightarrow> None
      | Some (ps, g', M') \<Rightarrow> Some (fold (setBlue a) (zip ps bits) h, g', M'))"
proof (induction bits arbitrary: h g M)
  case Nil
  then show ?case by simp
next
  case (Cons b bits)
  show ?case
  proof (cases "drawPixel g N M")
    case None
    then show ?thesis by simp
  next
    case (Some y)
    obtain p g1 where y: "y = (p, g1)" by (cases y)
    show ?thesis
      unfolding embedLoop_Cons
      using Some y Cons.IH [of "setBlue a (p, b) h" g1 "insert p M"]
      by (simp split: option.splits)
  qed
qed


section \<open>Writing and reading least significant bits\<close>

lemma odd_or_one [simp]: "odd ((x :: 8 word) OR 1)"
  by (simp add: even_or_iff)

lemma even_and_not_one [simp]: "even ((x :: 8 word) AND - 2)"
  by (simp add: even_and_iff)


lemma sameUpToLSB_refl [simp]: "sameUpToLSB x x"
  by (simp add: sameUpToLSB_def)

lemma sameUpToLSB_or [simp]: "sameUpToLSB (x OR 1) x"
  by (simp add: sameUpToLSB_def bit.conj_disj_distrib2)

lemma sameUpToLSB_and [simp]: "sameUpToLSB (x AND - 2) x"
  by (simp add: sameUpToLSB_def and.assoc)

lemma sameUpToLSB_trans: "sameUpToLSB x y \<Longrightarrow> sameUpToLSB y z \<Longrightarrow> sameUpToLSB x z"
  by (simp add: sameUpToLSB_def)

lemma length_setLSB [simp]: "length (setLSB d ib) = length d"
  by (simp add: setLSB_def)

lemma nth_setLSB_other: "int j \<noteq> fst ib \<Longrightarrow> setLSB d ib ! j = d ! j"
  by (auto simp: setLSB_def)


lemma nth_setLSB_upper: "j < length d \<Longrightarrow> sameUpToLSB (setLSB d ib ! j) (d ! j)"
  by (auto simp: setLSB_def nth_list_update)

lemma length_writeBits [simp]: "length (writeBits W d) = length d"
  by (induction W arbitrary: d) (simp_all add: writeBits_def)

lemma writeBits_Cons: "writeBits (ib # W) d = writeBits W (setLSB d ib)"
  by (simp add: writeBits_def)

lemma writeBits_Nil [simp]: "writeBits [] d = d"
  by (simp add: writeBits_def)

lemma nth_writeBits_other: "int j \<notin> fst ` set W \<Longrightarrow> writeBits W d ! j = d ! j"
  by (induction W arbitrary: d) (simp_all add: writeBits_Cons nth_setLSB_other)

lemma nth_writeBits_upper: "j < length d \<Longrightarrow> sameUpToLSB (writeBits W d ! j) (d ! j)"
proof (induction W arbitrary: d)
  case Nil
  then show ?case by simp
next
  case (Cons ib W)
  from Cons.prems have "sameUpToLSB (writeBits W (setLSB d ib) ! j) (setLSB d ib ! j)"
    by (intro Cons.IH) simp
  moreover from Cons.prems have "sameUpToLSB (setLSB d ib ! j) (d ! j)"
    by (rule nth_setLSB_upper)
  ultimately show ?case by (simp add: writeBits_Cons sameUpToLSB_trans)
qed


lemma length_writeByte [simp]: "length (writeByte h a i v) = length h"
  by (simp add: writeByte_def)

lemma orAssign_setLSB:
  "a < length h \<Longrightarrow> orAssign h a i 1 = h[a := setLSB (h ! a) (i, True)]"
  by (simp add: orAssign_def writeByte_def readByte_def toInt32_def setLSB_def)

lemma andAssign_setLSB:
  "a < length h \<Longrightarrow> andAssign h a i (- 2) = h[a := setLSB (h ! a) (i, False)]"
  by (simp add: andAssign_def writeByte_def readByte_def toInt32_def setLSB_def)

lemma setBlue_setLSB:
  "a < length h \<Longrightarrow> setBlue a (p, c) h = h[a := setLSB (h ! a) (p * 4 + 2, c = CHR ''1'')]"
  by (simp add: setBlue_def orAssign_setLSB andAssign_setLSB)

lemma fold_setBlue:
  "a < length h \<Longrightarrow>
     fold (setBlue a) (zip ps bits) h = h[a := writeBits (messageWrites ps bits) (h ! a)]"
proof (induction "zip ps bits" arbitrary: ps bits h)
  case Nil
  then have z: "zip ps bits = []" by simp
  show ?case unfolding messageWrites_def z by simp
next
  case (Cons pc rest)
  then obtain p ps' c bits' where ps: "ps = p # ps'" and bits: "bits = c # bits'"
    and pc: "pc = (p, c)" and rest: "rest = zip ps' bits'"
    by (cases ps; cases bits) auto
  from Cons.prems have len: "a < length (setBlue a (p, c) h)"
    by (simp add: setBlue_setLSB)
  from Cons.hyps(1) [OF rest len] Cons.prems show ?case
    by (simp add: ps bits messageWrites_def writeBits_Cons setBlue_setLSB)
qed

lemma writeSignature_writeBits:
  "a < length h \<Longrightarrow> writeSignature N a h = h[a := writeBits (signatureWrites N) (h ! a)]"
proof -
  have "a < length h \<Longrightarrow>
      fold (\<lambda>i h. if signature ! i = CHR ''1''
                   then orAssign h a (signatureDataIndex N i) 1
                   else andAssign h a (signatureDataIndex N i) (NOT 1)) is h =
      h[a := writeBits (map (\<lambda>i. (signatureDataIndex N i, signature ! i = CHR ''1'')) is) (h ! a)]"
    for "is"
    by (induction "is" arbitrary: h)
       (simp_all add: writeBits_Cons orAssign_setLSB andAssign_setLSB)
  then show "a < length h \<Longrightarrow> ?thesis"
    by (simp add: writeSignature_def signatureWrites_def)
qed




section \<open>The two entry points in terms of the selected pixels\<close>

lemma signature_eq:
  "signature = ''010101110100000101010100010001010101001001001101010000010101001001001011''"
proof -
  have "\<forall>c \<in> set (js ''WATERMARK''). unat c \<le> 255" by (simp add: js_def)
  then have "stringToBinary (js ''WATERMARK'') = textToBits (js ''WATERMARK'')"
    by (rule stringToBinary_textToBits)
  then show ?thesis
    by (simp add: signature_def textToBits_def js_def byteBits_def)
qed

lemma length_signature [simp]: "min (length signature) 64 = 64"
  by (simp add: signature_eq)



lemma signatureDataIndex_eq: "signatureDataIndex N i = 4 * (int i + int N - 64) + 3"
  by (simp add: signatureDataIndex_def Let_def)

lemma applyInvisibleWatermark_select:
  assumes "data imageData < length h"
  shows "applyInvisibleWatermark mathRandom h imageData options =
     (case selectPixels (length (stringToBinary (cfg_message (applyConfig mathRandom options))))
             (pixelCount imageData) (cfg_randomSeed (applyConfig mathRandom options)) {} of
        None \<Rightarrow> None
      | Some (ps, g', M') \<Rightarrow>
          Some (h @ [writeBits (signatureWrites (pixelCount imageData))
                       (writeBits
                          (messageWrites ps
                             (stringToBinary (cfg_message (applyConfig mathRandom options))))
                          (h ! data imageData))],
                \<lparr> data = length h, width = width imageData, height = height imageData \<rparr>))"
  using assms
  by (simp add: applyInvisibleWatermark_def applyConfig_def pixelCount_def Let_def
      newUint8ClampedArray_def createSeededRandom_def embedLoop_select fold_setBlue
      writeSignature_writeBits split: option.splits)


section \<open>Reading back what was written\<close>


lemma fst_messageWrites_subset:
  "fst ` set (messageWrites ps bits) \<subseteq> (\<lambda>p. p * 4 + 2) ` set ps"
  by (auto simp: messageWrites_def dest: set_zip_leftD)



lemma map_fst_signatureWrites:
  "map fst (signatureWrites N) = map (signatureDataIndex N) [0 ..< 64]"
  by (simp add: signatureWrites_def comp_def del: upt_Suc)

lemma fst_signatureWrites: "fst ` set (signatureWrites N) = signatureDataIndex N ` {..< 64}"
proof -
  have "fst ` set (signatureWrites N) = set (map fst (signatureWrites N))" by simp
  also have "\<dots> = signatureDataIndex N ` {..< 64}"
    unfolding map_fst_signatureWrites by (auto simp del: upt_Suc)
  finally show ?thesis .
qed







section \<open>When the slot selection returns\<close>











section \<open>Signature region and round trip\<close>



lemma apply_result:
  assumes wf: "wf_ImageData h imageData"
    and emb: "applyInvisibleWatermark mathRandom h imageData options = Some (h', out)"
  obtains ps g' M' where
    "selectPixels (length (stringToBinary (cfg_message (applyConfig mathRandom options))))
       (pixelCount imageData) (cfg_randomSeed (applyConfig mathRandom options)) {} =
       Some (ps, g', M')"
    and "h' = h @ [writeBits (signatureWrites (pixelCount imageData))
                    (writeBits
                       (messageWrites ps
                          (stringToBinary (cfg_message (applyConfig mathRandom options))))
                       (h ! data imageData))]"
    and "out = \<lparr> data = length h, width = width imageData, height = height imageData \<rparr>"
proof -
  from wf have "data imageData < length h" by (simp add: wf_ImageData_def)
  from emb [unfolded applyInvisibleWatermark_select [OF this]] that show ?thesis
    by (auto split: option.splits)
qed






section \<open>Generator, slot distinctness and the signature check\<close>






section \<open>Frame of the embedding, default seed, small images\<close>

lemma changed_byte:
  assumes len: "length d = 4 * N" and l: "length ps = length bits" and j: "j < 4 * N"
    and ne: "writeBits (signatureWrites N) (writeBits (messageWrites ps bits) d) ! j \<noteq> d ! j"
  shows "(j mod 4 = 2 \<and> int (j div 4) \<in> set ps) \<or> (j mod 4 = 3 \<and> N \<le> j div 4 + 64)"
proof (cases "int j \<in> fst ` set (signatureWrites N)")
  case True
  then obtain i where "i < 64" and "int j = signatureDataIndex N i"
    unfolding fst_signatureWrites by auto
  then have "int j = 4 * (int i + int N - 64) + 3" by (simp add: signatureDataIndex_eq)
  then have "j mod 4 = 3 \<and> N \<le> j div 4 + 64" by presburger
  then show ?thesis ..
next
  case False
  then have "writeBits (signatureWrites N) (writeBits (messageWrites ps bits) d) ! j =
      writeBits (messageWrites ps bits) d ! j"
    by (rule nth_writeBits_other)
  with ne have "writeBits (messageWrites ps bits) d ! j \<noteq> d ! j" by simp
  then have "int j \<in> fst ` set (messageWrites ps bits)"
    using nth_writeBits_other [of j "messageWrites ps bits" d] by blast
  with fst_messageWrites_subset [of ps bits] obtain p where "p \<in> set ps" and "int j = p * 4 + 2"
    by auto
  moreover from \<open>int j = p * 4 + 2\<close> have "j mod 4 = 2" and "int (j div 4) = p"
    by presburger+
  ultimately have "j mod 4 = 2 \<and> int (j div 4) \<in> set ps" by simp
  then show ?thesis ..
qed

text \<open>
  Claim C6, as amended. \<open>applyInvisibleWatermark\<close> changes no array that existed before
  the call (it writes to a fresh copy). Every byte of the returned buffer agrees with the
  input's in all bits but the lowest, and a byte that differs is the blue byte of a pixel
  drawn for a message bit or the alpha byte of one of the last 64 pixels. So red and green
  are untouched everywhere, and the alpha byte of a message-bearing pixel is untouched
  unless that pixel is among the last 64.
\<close>

theorem embedding_frame:
  assumes wf: "wf_ImageData h imageData"
    and emb: "applyInvisibleWatermark mathRandom h imageData options = Some (h', out)"
  shows "take (length h) h' = h \<and> data out = length h \<and>
         width out = width imageData \<and> height out = height imageData \<and>
         length (h' ! data out) = length (h ! data imageData) \<and>
         (\<exists>h2 random' modifiedPixels.
            embedLoop (stringToBinary (cfg_message (applyConfig mathRandom options)))
              (width imageData * height imageData) (length h)
              (h @ [h ! data imageData], cfg_randomSeed (applyConfig mathRandom options), {}) =
              Some (h2, random', modifiedPixels) \<and>
            (\<forall>j < 4 * (width imageData * height imageData).
               sameUpToLSB (h' ! data out ! j) (h ! data imageData ! j) \<and>
               (h' ! data out ! j \<noteq> h ! data imageData ! j \<longrightarrow>
                  (j mod 4 = 2 \<and> int (j div 4) \<in> modifiedPixels) \<or>
                  (j mod 4 = 3 \<and> width imageData * height imageData \<le> j div 4 + 64))))"
proof -
  let ?N = "pixelCount imageData"
  let ?bits = "stringToBinary (cfg_message (applyConfig mathRandom options))"
  let ?g = "cfg_randomSeed (applyConfig mathRandom options)"
  let ?d = "h ! data imageData"
  from wf have len: "length ?d = 4 * ?N"
    by (simp add: wf_ImageData_def pixelCount_def)
  from apply_result [OF wf emb] obtain ps g' M' where
    sel: "selectPixels (length ?bits) ?N ?g {} = Some (ps, g', M')"
    and h': "h' = h @ [writeBits (signatureWrites ?N) (writeBits (messageWrites ps ?bits) ?d)]"
    and out: "out = \<lparr> data = length h, width = width imageData, height = height imageData \<rparr>"
    by blast
  let ?d' = "writeBits (signatureWrites ?N) (writeBits (messageWrites ps ?bits) ?d)"
  from selectPixels_props [OF sel] have l: "length ps = length ?bits" and M': "M' = set ps"
    by simp_all
  have nth: "h' ! data out = ?d'" by (simp add: h' out)
  have loop: "embedLoop ?bits ?N (length h) (h @ [?d], ?g, {}) =
      Some (fold (setBlue (length h)) (zip ps ?bits) (h @ [?d]), g', M')"
    by (simp add: embedLoop_select sel)
  have bytes: "sameUpToLSB (?d' ! j) (?d ! j) \<and>
      (?d' ! j \<noteq> ?d ! j \<longrightarrow>
         (j mod 4 = 2 \<and> int (j div 4) \<in> M') \<or> (j mod 4 = 3 \<and> ?N \<le> j div 4 + 64))"
    if j: "j < 4 * ?N" for j
  proof
    from j len have "sameUpToLSB (?d' ! j) (writeBits (messageWrites ps ?bits) ?d ! j)"
      by (intro nth_writeBits_upper) simp
    moreover from j len have "sameUpToLSB (writeBits (messageWrites ps ?bits) ?d ! j) (?d ! j)"
      by (intro nth_writeBits_upper) simp
    ultimately show "sameUpToLSB (?d' ! j) (?d ! j)" by (rule sameUpToLSB_trans)
    show "?d' ! j \<noteq> ?d ! j \<longrightarrow>
         (j mod 4 = 2 \<and> int (j div 4) \<in> M') \<or> (j mod 4 = 3 \<and> ?N \<le> j div 4 + 64)"
      using changed_byte [OF len l j] M' by blast
  qed
  show ?thesis
    unfolding nth pixelCount_def [symmetric]
    using loop bytes by (auto simp: h' out)
qed



section \<open>A checked table of \<open>sin k\<close> for the counters of the scenarios\<close>

lemma taylorOne_sound:
  "taylorOne n = (f, s, c) \<Longrightarrow>
     real_of_int f = fact n \<and>
     real_of_int s = fact n * (\<Sum>m<n. sin_coeff m * 1 ^ m) \<and>
     real_of_int c = fact n * (\<Sum>m<n. cos_coeff m * 1 ^ m)"
proof (induction n arbitrary: f s c)
  case 0
  then show ?case by simp
next
  case (Suc n)
  obtain f0 s0 c0 where t: "taylorOne n = (f0, s0, c0)"
    by (cases "taylorOne n") auto
  from Suc.IH [OF t] have
    f0: "real_of_int f0 = fact n" and
    s0: "real_of_int s0 = fact n * (\<Sum>m<n. sin_coeff m * 1 ^ m)" and
    c0: "real_of_int c0 = fact n * (\<Sum>m<n. cos_coeff m * 1 ^ m)"
    by simp_all
  have sc: "fact n * sin_coeff n = (if even n then 0 else (- 1) ^ ((n - 1) div 2) :: real)"
    by (simp add: sin_coeff_def)
  have cc: "fact n * cos_coeff n = (if even n then (- 1) ^ (n div 2) else 0 :: real)"
    by (simp add: cos_coeff_def)
  from Suc.prems t have
    f: "f = int (Suc n) * f0" and
    s: "s = int (Suc n) * (s0 + (if even n then 0 else (- 1) ^ ((n - 1) div 2)))" and
    c: "c = int (Suc n) * (c0 + (if even n then (- 1) ^ (n div 2) else 0))"
    by simp_all
  have "real_of_int s = real (Suc n) * (real_of_int s0 + fact n * sin_coeff n)"
    unfolding s sc by simp
  also have "\<dots> = fact (Suc n) * (\<Sum>m<Suc n. sin_coeff m * 1 ^ m)"
    unfolding s0 by (simp add: algebra_simps)
  finally have S: "real_of_int s = fact (Suc n) * (\<Sum>m<Suc n. sin_coeff m * 1 ^ m)" .
  have "real_of_int c = real (Suc n) * (real_of_int c0 + fact n * cos_coeff n)"
    unfolding c cc by simp
  also have "\<dots> = fact (Suc n) * (\<Sum>m<Suc n. cos_coeff m * 1 ^ m)"
    unfolding c0 by (simp add: algebra_simps)
  finally have C: "real_of_int c = fact (Suc n) * (\<Sum>m<Suc n. cos_coeff m * 1 ^ m)" .
  from f f0 have "real_of_int f = fact (Suc n)" by simp
  with S C show ?case by blast
qed

lemma sin_one_taylor:
  "\<bar>sin 1 * fact n - fact n * (\<Sum>m<n. sin_coeff m * 1 ^ m)\<bar> \<le> (1 :: real)"
proof -
  have "\<bar>sin 1 - (\<Sum>m<n. sin_coeff m * 1 ^ m)\<bar> \<le> inverse (fact n) * \<bar>1 :: real\<bar> ^ n"
    by (rule Maclaurin_sin_bound)
  then have "\<bar>sin 1 - (\<Sum>m<n. sin_coeff m * 1 ^ m)\<bar> * fact n \<le> (1 :: real)"
    by (simp add: field_simps)
  moreover have "sin 1 * fact n - fact n * (\<Sum>m<n. sin_coeff m * 1 ^ m) =
      (sin 1 - (\<Sum>m<n. sin_coeff m * 1 ^ m)) * (fact n :: real)"
    by (simp add: algebra_simps)
  then have "\<bar>sin 1 * fact n - fact n * (\<Sum>m<n. sin_coeff m * 1 ^ m)\<bar> =
      \<bar>sin 1 - (\<Sum>m<n. sin_coeff m * 1 ^ m)\<bar> * (fact n :: real)"
    by (simp add: abs_mult)
  ultimately show ?thesis by simp
qed

lemma cos_one_taylor:
  assumes "0 < n"
  shows "\<bar>cos 1 * fact n - fact n * (\<Sum>m<n. cos_coeff m * 1 ^ m)\<bar> \<le> (1 :: real)"
proof -
  from Maclaurin_cos_expansion2 [of 1 n] assms
  obtain t :: real where
    t: "cos 1 = (\<Sum>m<n. cos_coeff m * 1 ^ m) + cos (t + 1 / 2 * real n * pi) / fact n * 1 ^ n"
    by auto
  have "cos 1 * fact n - fact n * (\<Sum>m<n. cos_coeff m * 1 ^ m) = cos (t + 1 / 2 * real n * pi)"
    by (subst t) (simp add: field_simps)
  then show ?thesis by simp
qed

lemma scaled_approx:
  fixes x :: real and f s S a :: int
  assumes t: "\<bar>x * real_of_int f - real_of_int s\<bar> \<le> real_of_int m"
    and chk: "\<bar>s * S - a * f\<bar> + m * S \<le> f"
    and pos: "0 < f" "0 \<le> S" "0 \<le> m"
  shows "\<bar>x * real_of_int S - real_of_int a\<bar> \<le> 1"
proof -
  have "(x * real_of_int S - real_of_int a) * real_of_int f =
        (x * real_of_int f - real_of_int s) * real_of_int S + real_of_int (s * S - a * f)"
    by (simp add: algebra_simps)
  then have "\<bar>(x * real_of_int S - real_of_int a) * real_of_int f\<bar> \<le>
        \<bar>(x * real_of_int f - real_of_int s) * real_of_int S\<bar> + \<bar>real_of_int (s * S - a * f)\<bar>"
    by (simp only: abs_triangle_ineq)
  also have "\<bar>(x * real_of_int f - real_of_int s) * real_of_int S\<bar> \<le>
        real_of_int m * real_of_int S"
    using t pos by (simp add: abs_mult mult_right_mono)
  also have "real_of_int m * real_of_int S + \<bar>real_of_int (s * S - a * f)\<bar> \<le> real_of_int f"
  proof -
    have "real_of_int (\<bar>s * S - a * f\<bar> + m * S) \<le> real_of_int f"
      using chk by (rule of_int_le_iff [THEN iffD2])
    then show ?thesis by simp
  qed
  finally have "\<bar>x * real_of_int S - real_of_int a\<bar> * real_of_int f \<le> 1 * real_of_int f"
    using pos by (simp add: abs_mult)
  then show ?thesis using pos by (simp add: mult_le_cancel_right)
qed

lemma taylorOne_numeral:
  "taylorOne (numeral k) =
     (case taylorOne (pred_numeral k) of (f, s, c) \<Rightarrow>
        (int (numeral k) * f,
         int (numeral k) * (s + (if even (pred_numeral k) then 0
                                 else (- 1) ^ ((pred_numeral k - 1) div 2))),
         int (numeral k) * (c + (if even (pred_numeral k) then (- 1) ^ (pred_numeral k div 2)
                                 else 0))))"
  by (simp add: numeral_eq_Suc)

lemma taylorOne_36:
  "taylorOne 36 =
     (371993326789901217467999448150835200000000,
      313021591035863847937199383185872242637364,
      200988852232144060114685469399818280218220)"
  by (simp add: taylorOne_numeral)

lemma sinOne_approx: "\<bar>sin 1 * real_of_int sinScale - real_of_int sinOne\<bar> \<le> 1"
proof -
  obtain f s c where t: "taylorOne 36 = (f, s, c)"
    by (cases "taylorOne 36") auto
  from taylorOne_sound [OF t] sin_one_taylor [of 36]
  have "\<bar>sin 1 * real_of_int f - real_of_int s\<bar> \<le> real_of_int 1" by simp
  moreover from t have "\<bar>s * sinScale - sinOne * f\<bar> + 1 * sinScale \<le> f" and "0 < f"
    by (simp_all add: taylorOne_36 sinScale_def sinOne_def)
  ultimately show ?thesis
    by (rule scaled_approx) (simp_all add: sinScale_def)
qed

lemma twoCosOne_approx: "\<bar>2 * cos 1 * real_of_int sinScale - real_of_int twoCosOne\<bar> \<le> 1"
proof -
  obtain f s c where t: "taylorOne 36 = (f, s, c)"
    by (cases "taylorOne 36") auto
  from taylorOne_sound [OF t] cos_one_taylor [of 36]
  have "\<bar>cos 1 * real_of_int f - real_of_int c\<bar> \<le> 1" by simp
  then have "\<bar>2 * cos 1 * real_of_int f - real_of_int (2 * c)\<bar> \<le> real_of_int 2" by simp
  moreover from t have "\<bar>(2 * c) * sinScale - twoCosOne * f\<bar> + 2 * sinScale \<le> f" and "0 < f"
    by (simp_all add: taylorOne_36 sinScale_def twoCosOne_def)
  ultimately show ?thesis
    by (rule scaled_approx) (simp_all add: sinScale_def)
qed

lemma sin_recurrence: "sin (x + 2) = 2 * cos 1 * sin (x + 1) - sin (x :: real)"
proof -
  have "sin (x + 2) = sin ((x + 1) + 1)" by (rule arg_cong [where f = sin]) simp
  also have "\<dots> = sin (x + 1) * cos 1 + cos (x + 1) * sin 1" by (rule sin_add)
  finally have a: "sin (x + 2) = sin (x + 1) * cos 1 + cos (x + 1) * sin 1" .
  have "sin x = sin ((x + 1) - 1)" by (rule arg_cong [where f = sin]) simp
  also have "\<dots> = sin (x + 1) * cos 1 - cos (x + 1) * sin 1" by (rule sin_diff)
  finally have b: "sin x = sin (x + 1) * cos 1 - cos (x + 1) * sin 1" .
  from a b show ?thesis by simp
qed

lemma sinSteps_nth:
  "sinSteps xs \<Longrightarrow> k + 2 < length xs \<Longrightarrow>
     \<bar>twoCosOne * xs ! (k + 1) - (xs ! (k + 2) + xs ! k) * sinScale\<bar> \<le> sinScale"
proof (induction xs arbitrary: k rule: sinSteps.induct)
  case (1 a b c xs)
  show ?case
  proof (cases k)
    case 0
    with "1.prems" show ?thesis by simp
  next
    case (Suc j)
    with "1.prems" "1.IH" [of j] show ?thesis by simp
  qed
qed simp_all

lemma sin_step_error:
  fixes A B C a b c K S e :: real
  assumes A: "\<bar>A - a\<bar> \<le> e" and B: "\<bar>B - b\<bar> \<le> e" and BS: "\<bar>B\<bar> \<le> S"
    and C: "\<bar>C * S - K\<bar> \<le> 1" and step: "\<bar>K * b - (c + a) * S\<bar> \<le> S"
    and S: "0 < S" and K: "\<bar>K\<bar> \<le> 2 * S"
  shows "\<bar>C * B - A - c\<bar> \<le> 3 * e + 2"
proof -
  from A have e: "0 \<le> e" by linarith
  have eq: "S * (C * B - A - c) =
      (C * S - K) * B + K * (B - b) + (K * b - (c + a) * S) - S * (A - a)"
    by (simp add: algebra_simps)
  have 1: "\<bar>(C * S - K) * B\<bar> \<le> 1 * S"
    unfolding abs_mult using C BS by (intro mult_mono) simp_all
  have 2: "\<bar>K * (B - b)\<bar> \<le> (2 * S) * e"
    unfolding abs_mult using K B by (intro mult_mono) (use S in simp_all)
  have 4: "\<bar>S * (A - a)\<bar> \<le> S * e"
    unfolding abs_mult using A S by (simp add: mult_left_mono)
  have "\<bar>S * (C * B - A - c)\<bar> \<le>
      \<bar>(C * S - K) * B\<bar> + \<bar>K * (B - b)\<bar> + \<bar>K * b - (c + a) * S\<bar> + \<bar>S * (A - a)\<bar>"
    unfolding eq by linarith
  also have "\<dots> \<le> 1 * S + (2 * S) * e + S + S * e"
    using 1 2 step 4 by linarith
  also have "\<dots> = S * (3 * e + 2)" by (simp add: algebra_simps)
  finally have "S * \<bar>C * B - A - c\<bar> \<le> S * (3 * e + 2)"
    using S by (simp add: abs_mult)
  with S show ?thesis by (simp add: mult_le_cancel_left)
qed

lemma sinSteps_sinTable: "sinSteps sinTable"
  by (simp add: sinTable_def twoCosOne_def sinScale_def)

lemma sinErr_Suc_Suc: "sinErr (Suc (Suc k)) = 3 * sinErr (Suc k) + 2"
  by (simp add: sinErr_def)

lemma sinErr_mono: "sinErr k \<le> sinErr (Suc k)"
proof -
  have "(0 :: int) < 3 ^ k" by simp
  then have "2 * 3 ^ k - 1 \<le> 2 * (3 * 3 ^ k) - (1 :: int)" by linarith
  then show ?thesis by (simp only: sinErr_def power_Suc)
qed

lemma sinTable_sound_pair:
  "(k < length sinTable \<longrightarrow>
      \<bar>sin (real k) * real_of_int sinScale - real_of_int (sinTable ! k)\<bar>
        \<le> real_of_int (sinErr k)) \<and>
   (Suc k < length sinTable \<longrightarrow>
      \<bar>sin (real (Suc k)) * real_of_int sinScale - real_of_int (sinTable ! Suc k)\<bar>
        \<le> real_of_int (sinErr (Suc k)))"
proof (induction k)
  case 0
  have "sinTable ! 0 = 0" and "sinTable ! Suc 0 = sinOne"
    by (simp_all add: sinTable_def sinOne_def)
  with sinOne_approx show ?case by (simp add: sinErr_def)
next
  case (Suc k)
  show ?case
  proof (intro conjI impI)
    assume "Suc k < length sinTable"
    with Suc.IH show "\<bar>sin (real (Suc k)) * real_of_int sinScale - real_of_int (sinTable ! Suc k)\<bar>
        \<le> real_of_int (sinErr (Suc k))" by simp
  next
    assume len: "Suc (Suc k) < length sinTable"
    let ?S = "real_of_int sinScale"
    let ?e = "real_of_int (sinErr (Suc k))"
    from len Suc.IH have "\<bar>sin (real k) * ?S - real_of_int (sinTable ! k)\<bar>
        \<le> real_of_int (sinErr k)" by simp
    also have "\<dots> \<le> ?e" using sinErr_mono [of k] by simp
    finally have A: "\<bar>sin (real k) * ?S - real_of_int (sinTable ! k)\<bar> \<le> ?e" .
    from len Suc.IH have B: "\<bar>sin (real (Suc k)) * ?S - real_of_int (sinTable ! Suc k)\<bar> \<le> ?e"
      by simp
    have S: "0 < ?S" by (simp add: sinScale_def)
    have BS: "\<bar>sin (real (Suc k)) * ?S\<bar> \<le> ?S"
      using S by (simp add: abs_mult mult_le_cancel_right2)
    have K: "\<bar>real_of_int twoCosOne\<bar> \<le> 2 * ?S"
      by (simp add: twoCosOne_def sinScale_def)
    from sinSteps_nth [OF sinSteps_sinTable, of k] len
    have "real_of_int \<bar>twoCosOne * sinTable ! (k + 1) -
        (sinTable ! (k + 2) + sinTable ! k) * sinScale\<bar> \<le> ?S"
      by (intro of_int_le_iff [THEN iffD2]) simp
    then have step: "\<bar>real_of_int twoCosOne * real_of_int (sinTable ! Suc k) -
        (real_of_int (sinTable ! Suc (Suc k)) + real_of_int (sinTable ! k)) * ?S\<bar> \<le> ?S"
      by simp
    from sin_step_error [OF A B BS twoCosOne_approx step S K]
    have bound: "\<bar>2 * cos 1 * (sin (real (Suc k)) * ?S) - sin (real k) * ?S -
        real_of_int (sinTable ! Suc (Suc k))\<bar> \<le> 3 * ?e + 2" .
    have "real (Suc (Suc k)) = real k + 2" and "real (Suc k) = real k + 1" by simp_all
    with sin_recurrence [of "real k"]
    have "sin (real (Suc (Suc k))) = 2 * cos 1 * sin (real (Suc k)) - sin (real k)"
      by (simp only:)
    then have rec: "sin (real (Suc (Suc k))) * ?S =
        2 * cos 1 * (sin (real (Suc k)) * ?S) - sin (real k) * ?S"
      by (simp only: left_diff_distrib mult.assoc)
    have err: "real_of_int (sinErr (Suc (Suc k))) = 3 * ?e + 2"
      by (simp add: sinErr_Suc_Suc)
    show "\<bar>sin (real (Suc (Suc k))) * ?S - real_of_int (sinTable ! Suc (Suc k))\<bar>
        \<le> real_of_int (sinErr (Suc (Suc k)))"
      unfolding rec err by (rule bound)
  qed
qed

lemma sinTable_sound:
  "k < length sinTable \<Longrightarrow>
     \<bar>sin (real k) * real_of_int sinScale - real_of_int (sinTable ! k)\<bar>
       \<le> real_of_int (sinErr k)"
  using sinTable_sound_pair [of k] by simp

lemma pixelAt_floor:
  assumes N: "0 < N"
    and lo: "real_of_int q \<le> sin c * (10000 * real N)"
    and hi: "sin c * (10000 * real N) < real_of_int q + 1"
  shows "pixelAt N c = q mod int N"
proof -
  define x where "x = sin c * 10000"
  have xN: "\<lfloor>x * real N\<rfloor> = q"
    using lo hi by (intro floor_unique) (simp_all add: x_def algebra_simps)
  have "\<lfloor>x\<rfloor> = \<lfloor>(x * real N) / real_of_int (int N)\<rfloor>"
    using N by simp
  also have "\<dots> = \<lfloor>x * real N\<rfloor> div int N"
    by (rule floor_divide_real_eq_div) simp
  finally have fx: "\<lfloor>x\<rfloor> = q div int N" by (simp add: xN)
  have "(x - real_of_int \<lfloor>x\<rfloor>) * real N = x * real N - real_of_int (q div int N * int N)"
    by (simp add: fx algebra_simps)
  then have "\<lfloor>(x - real_of_int \<lfloor>x\<rfloor>) * real N\<rfloor> = q - q div int N * int N"
    by (simp only: floor_diff_of_int xN)
  also have "\<dots> = q mod int N"
    by (simp add: minus_div_mult_eq_mod)
  finally show ?thesis
    by (simp add: pixelAt_def nextRandom_def Let_def x_def)
qed

lemma pixelCheck_sound:
  assumes chk: "pixelCheck N k q" and N: "0 < N"
  shows "pixelAt N (real k) = q mod int N"
proof -
  let ?S = "real_of_int sinScale"
  let ?M = "10000 * real N"
  let ?t = "real_of_int (sinTable ! k)"
  let ?e = "real_of_int (sinErr k)"
  from chk have len: "k < length sinTable"
    and c1: "q * sinScale \<le> (sinTable ! k - sinErr k) * (10000 * int N)"
    and c2: "(sinTable ! k + sinErr k) * (10000 * int N) < (q + 1) * sinScale"
    by (simp_all add: pixelCheck_def)
  have S: "0 < ?S" by (simp add: sinScale_def)
  from sinTable_sound [OF len]
  have lo: "?t - ?e \<le> sin (real k) * ?S" and hi: "sin (real k) * ?S \<le> ?t + ?e"
    by linarith+
  from c1 have "real_of_int (q * sinScale) \<le> real_of_int ((sinTable ! k - sinErr k) * (10000 * int N))"
    by (rule of_int_le_iff [THEN iffD2])
  then have "real_of_int q * ?S \<le> (?t - ?e) * ?M" by simp
  also have "\<dots> \<le> (sin (real k) * ?S) * ?M"
    using lo by (intro mult_right_mono) simp_all
  finally have "real_of_int q * ?S \<le> (sin (real k) * ?M) * ?S" by (simp add: algebra_simps)
  with S have l: "real_of_int q \<le> sin (real k) * ?M" by (simp add: mult_le_cancel_right)
  from c2 have "real_of_int ((sinTable ! k + sinErr k) * (10000 * int N)) < real_of_int ((q + 1) * sinScale)"
    by (rule of_int_less_iff [THEN iffD2])
  then have c2r: "(?t + ?e) * ?M < (real_of_int q + 1) * ?S" by simp
  have "(sin (real k) * ?S) * ?M \<le> (?t + ?e) * ?M"
    using hi by (intro mult_right_mono) simp_all
  with c2r have "(sin (real k) * ?M) * ?S < (real_of_int q + 1) * ?S" by (simp add: algebra_simps)
  with S have h: "sin (real k) * ?M < real_of_int q + 1" by (simp add: mult_less_cancel_right)
  from N l h show ?thesis by (rule pixelAt_floor)
qed

lemma sinErr_numeral: "sinErr (numeral k) = 2 * 3 ^ numeral k - 1"
  by (simp add: sinErr_def)

lemma pixelAt_42: "pixelAt 100 42 = 78"
  using pixelCheck_sound [of 100 42 "- 916522"]
  by (simp add: pixelCheck_def sinTable_def sinErr_def sinScale_def)

lemma pixelAt_43: "pixelAt 100 43 = 25"
  using pixelCheck_sound [of 100 43 "- 831775"]
  by (simp add: pixelCheck_def sinTable_def sinErr_def sinScale_def)

lemma pixelAt_44: "pixelAt 100 44 = 1"
  using pixelCheck_sound [of 100 44 "17701"]
  by (simp add: pixelCheck_def sinTable_def sinErr_def sinScale_def)

lemma pixelAt_45: "pixelAt 100 45 = 3"
  using pixelCheck_sound [of 100 45 "850903"]
  by (simp add: pixelCheck_def sinTable_def sinErr_def sinScale_def)

lemma pixelAt_46: "pixelAt 100 46 = 88"
  using pixelCheck_sound [of 100 46 "901788"]
  by (simp add: pixelCheck_def sinTable_def sinErr_def sinScale_def)

lemma pixelAt_47: "pixelAt 100 47 = 73"
  using pixelCheck_sound [of 100 47 "123573"]
  by (simp add: pixelCheck_def sinTable_def sinErr_def sinScale_def)

lemma pixelAt_48: "pixelAt 100 48 = 45"
  using pixelCheck_sound [of 100 48 "- 768255"]
  by (simp add: pixelCheck_def sinTable_def sinErr_def sinScale_def)

lemma pixelAt_49: "pixelAt 100 49 = 47"
  using pixelCheck_sound [of 100 49 "- 953753"]
  by (simp add: pixelCheck_def sinTable_def sinErr_def sinScale_def)

lemma pixelAt_50: "pixelAt 100 50 = 25"
  using pixelCheck_sound [of 100 50 "- 262375"]
  by (simp add: pixelCheck_def sinTable_def sinErr_def sinScale_def)

lemma pixelAt_51: "pixelAt 100 51 = 29"
  using pixelCheck_sound [of 100 51 "670229"]
  by (simp add: pixelCheck_def sinTable_def sinErr_def sinScale_def)

lemma pixelAt_52: "pixelAt 100 52 = 27"
  using pixelCheck_sound [of 100 52 "986627"]
  by (simp add: pixelCheck_def sinTable_def sinErr_def sinScale_def)

lemma pixelAt_53: "pixelAt 100 53 = 25"
  using pixelCheck_sound [of 100 53 "395925"]
  by (simp add: pixelCheck_def sinTable_def sinErr_def sinScale_def)

lemma pixelAt_54: "pixelAt 100 54 = 10"
  using pixelCheck_sound [of 100 54 "- 558790"]
  by (simp add: pixelCheck_def sinTable_def sinErr_def sinScale_def)

lemma pixelAt_55: "pixelAt 100 55 = 44"
  using pixelCheck_sound [of 100 55 "- 999756"]
  by (simp add: pixelCheck_def sinTable_def sinErr_def sinScale_def)

lemma pixelAt_56: "pixelAt 100 56 = 48"
  using pixelCheck_sound [of 100 56 "- 521552"]
  by (simp add: pixelCheck_def sinTable_def sinErr_def sinScale_def)

lemma pixelAt_57: "pixelAt 100 57 = 64"
  using pixelCheck_sound [of 100 57 "436164"]
  by (simp add: pixelCheck_def sinTable_def sinErr_def sinScale_def)

lemma pixelAt_58: "pixelAt 100 58 = 72"
  using pixelCheck_sound [of 100 58 "992872"]
  by (simp add: pixelCheck_def sinTable_def sinErr_def sinScale_def)

lemma pixelAt_59: "pixelAt 100 59 = 38"
  using pixelCheck_sound [of 100 59 "636738"]
  by (simp add: pixelCheck_def sinTable_def sinErr_def sinScale_def)

lemma pixelAt_60: "pixelAt 100 60 = 89"
  using pixelCheck_sound [of 100 60 "- 304811"]
  by (simp add: pixelCheck_def sinTable_def sinErr_def sinScale_def)

section \<open>The scenarios evaluated\<close>

lemma drawPixel_hit: "pixelAt N c \<notin> M \<Longrightarrow> drawPixel c N M = Some (pixelAt N c, c + 1)"
  by (subst drawPixel_unfold) simp

lemma drawPixel_miss: "pixelAt N c \<in> M \<Longrightarrow> drawPixel c N M = drawPixel (c + 1) N M"
  by (subst drawPixel_unfold) simp

lemma selectPixels_numeral:
  "selectPixels (numeral k) N g M =
     (case drawPixel g N M of
        None \<Rightarrow> None
      | Some (p, g') \<Rightarrow>
          (case selectPixels (pred_numeral k) N g' (insert p M) of
             None \<Rightarrow> None
           | Some (ps, g'', M') \<Rightarrow> Some (p # ps, g'', M')))"
  by (simp add: numeral_eq_Suc)

lemmas pixelAt_facts =
  pixelAt_42 pixelAt_43 pixelAt_44 pixelAt_45 pixelAt_46 pixelAt_47 pixelAt_48 pixelAt_49
  pixelAt_50 pixelAt_51 pixelAt_52 pixelAt_53 pixelAt_54 pixelAt_55 pixelAt_56 pixelAt_57
  pixelAt_58 pixelAt_59 pixelAt_60

lemma select42: "selectPixels 16 100 42 {} = Some (pixels42, 60, set pixels42)"
  by (simp add: selectPixels_numeral drawPixel_hit drawPixel_miss pixelAt_facts pixels42_def
      insert_commute)


lemma bits_braces: "stringToBinary (js ''{}'') = ''0111101101111101''"
proof -
  have "\<forall>c \<in> set (js ''{}''). unat c \<le> 255" by (simp add: js_def)
  then have "stringToBinary (js ''{}'') = textToBits (js ''{}'')"
    by (rule stringToBinary_textToBits)
  then show ?thesis by (simp add: textToBits_def js_def byteBits_def)
qed

lemma length_bits_braces: "length (stringToBinary (js ''{}'')) = 16"
  by (simp add: bits_braces)

lemma array42:
  "writeBits (signatureWrites 100)
     (writeBits (messageWrites pixels42 ''0111101101111101'') (replicate 400 0)) = watermarked42"
  by code_simp




lemma config_given:
  "cfg_message (applyConfig mathRandom (optionsOf text (Some seed))) = text"
  "cfg_randomSeed (applyConfig mathRandom (optionsOf text (Some seed))) = seed"
  "cfg_message (extractConfig mathRandom (optionsOf text (Some seed))) = text"
  "cfg_randomSeed (extractConfig mathRandom (optionsOf text (Some seed))) = seed"
  by (simp_all add: applyConfig_def extractConfig_def spread_def optionsOf_def)

lemma apply_blank:
  assumes "selectPixels (length (stringToBinary text)) (w * h) seed {} = Some (ps, g, M)"
  shows "applyInvisibleWatermark mathRandom (blankStore (w * h)) (imageAt 0 w h)
           (optionsOf text (Some seed)) =
         Some ([replicate (4 * (w * h)) 0,
                writeBits (signatureWrites (w * h))
                  (writeBits (messageWrites ps (stringToBinary text)) (replicate (4 * (w * h)) 0))],
               imageAt 1 w h)"
proof -
  have "data (imageAt 0 w h) < length (blankStore (w * h))"
    by (simp add: imageAt_def blankStore_def)
  from applyInvisibleWatermark_select [OF this] assms show ?thesis
    by (simp add: config_given pixelCount_def imageAt_def blankStore_def)
qed

lemma apply_42:
  "applyInvisibleWatermark mathRandom (blankStore 100) (imageAt 0 10 10)
     (optionsOf (js ''{}'') (Some 42)) =
   Some ([replicate 400 0, watermarked42], imageAt 1 10 10)"
  using apply_blank [of "js ''{}''" 10 10 42 pixels42 60 "set pixels42" mathRandom]
  by (simp add: length_bits_braces select42) (simp add: bits_braces array42)



section \<open>Instances\<close>

lemma wf_blank: "wf_ImageData (blankStore (w * h)) (imageAt 0 w h)"
  by (simp add: wf_ImageData_def blankStore_def imageAt_def)




lemma embedLoop_42:
  "embedLoop ''0111101101111101'' 100 1 ([replicate 400 0, replicate 400 0], 42, {}) =
     Some (fold (setBlue 1) (zip pixels42 ''0111101101111101'')
             [replicate 400 0, replicate 400 0], 60, set pixels42)"
proof -
  have "length ''0111101101111101'' = 16" by simp
  then show ?thesis by (simp only: embedLoop_select select42 option.case prod.case)
qed










lemma embedLoop_42_pixels:
  "map_option (snd \<circ> snd)
     (embedLoop (stringToBinary (js ''{}'')) 100 1
        ([replicate 400 0, replicate 400 0], createSeededRandom 42, {})) = Some (set pixels42)"
proof -
  have "embedLoop (stringToBinary (js ''{}'')) 100 1
      ([replicate 400 0, replicate 400 0], createSeededRandom 42, {}) =
      Some (fold (setBlue 1) (zip pixels42 ''0111101101111101'')
              [replicate 400 0, replicate 400 0], 60, set pixels42)"
    by (simp only: bits_braces createSeededRandom_def embedLoop_42)
  then show ?thesis by (simp only: option.map comp_def snd_conv)
qed

text \<open>
  Claim C6 as stated fails in its last clause: on the blank 10 by 10 image with message
  \<open>{}\<close> and seed 42, pixel 45 carries a message bit and its alpha byte changes from 0 to 1.
\<close>

theorem alpha_of_message_pixel_changes:
  "applyInvisibleWatermark 0 (blankStore 100) (imageAt 0 10 10) (optionsOf (js ''{}'') (Some 42)) =
     Some ([replicate 400 0, watermarked42], imageAt 1 10 10) \<and>
   map_option (snd \<circ> snd)
     (embedLoop (stringToBinary (js ''{}'')) 100 1
        ([replicate 400 0, replicate 400 0], createSeededRandom 42, {})) = Some (set pixels42) \<and>
   45 \<in> set pixels42 \<and>
   blankStore 100 ! 0 ! (4 * 45 + 3) = 0 \<and>
   watermarked42 ! (4 * 45 + 3) = 1"
proof (intro conjI)
  show "applyInvisibleWatermark 0 (blankStore 100) (imageAt 0 10 10)
      (optionsOf (js ''{}'') (Some 42)) = Some ([replicate 400 0, watermarked42], imageAt 1 10 10)"
    by (rule apply_42)
  show "map_option (snd \<circ> snd)
     (embedLoop (stringToBinary (js ''{}'')) 100 1
        ([replicate 400 0, replicate 400 0], createSeededRandom 42, {})) = Some (set pixels42)"
    by (rule embedLoop_42_pixels)
  show "45 \<in> set pixels42" by (simp add: pixels42_def)
  show "blankStore 100 ! 0 ! (4 * 45 + 3) = 0" by (simp add: blankStore_def)
  show "watermarked42 ! (4 * 45 + 3) = 1" by (simp add: watermarked42_def)
qed

theorem embedding_frame_witness:
  "take 1 [replicate 400 0, watermarked42] = blankStore 100 \<and>
   length watermarked42 = 400 \<and>
   sameUpToLSB (watermarked42 ! 102) (replicate 400 0 ! 102)"
proof -
  let ?h = "blankStore 100" and ?im = "imageAt 0 10 10"
  from embedding_frame [OF wf_blank [of 10 10, simplified] apply_42 [of 0]]
  have a: "take (length ?h) [replicate 400 0, watermarked42] = ?h"
    and b: "length ([replicate 400 0, watermarked42] ! data (imageAt 1 10 10)) =
        length (?h ! data ?im)"
    and c: "\<forall>j < 4 * (width ?im * height ?im).
        sameUpToLSB ([replicate 400 0, watermarked42] ! data (imageAt 1 10 10) ! j)
          (?h ! data ?im ! j)"
    by blast+
  from a have "take 1 [replicate 400 0, watermarked42] = blankStore 100"
    by (simp add: blankStore_def)
  moreover from b have "length watermarked42 = 400"
    by (simp add: imageAt_def blankStore_def)
  moreover from c have "sameUpToLSB (watermarked42 ! 102) (replicate 400 0 ! 102)"
    by (simp add: imageAt_def blankStore_def)
  ultimately show ?thesis by blast
qed










end
